theory Spec2Isabelle
  imports Main "HOL-Library.AList"
begin

section \<open>The cache of \<open>cache/cache.go\<close>: data model\<close>

text \<open>
  Go's zero values. \<open>removeTail\<close> starts its key search from \<open>var key K\<close>, and a
  reserved entry holds the zero \<open>V\<close>, so the key and value types carry their zero value
  through the class \<open>default\<close>: the empty string for \<open>string\<close>, \<open>0\<close> for the integers.
\<close>

instantiation list :: (type) default
begin
definition default_list :: "'a list" where "default_list = []"
instance ..
end

instantiation int :: default
begin
definition default_int :: int where "default_int = 0"
instance ..
end

text \<open>
  Entries are heap objects (\<open>*CacheEntry[V]\<close>): an address is a natural number, \<open>nil\<close> is
  \<open>None\<close>. \<open>time.Time\<close> is a number of nanoseconds; the zero \<open>time.Time\<close> (\<open>IsZero\<close>) is
  \<open>None\<close>. Durations and times are unbounded integers: the saturation of \<open>time.Time.Add\<close>
  at the ends of its range is not modelled. The channel \<open>ready\<close> is only ever closed, so it
  is the flag "closed".
\<close>

type_synonym addr = nat

record 'v CacheEntry =
  value_e :: 'v
  expiresAt :: "int option"
  ready :: bool
  prev :: "addr option"
  next_e :: "addr option"

text \<open>
  The struct \<open>Cache\<close>. The Go map \<open>items\<close> is an association list with distinct keys
  (its order stands for one of Go's iteration orders); \<open>heap\<close> holds the entries that the
  pointers of \<open>items\<close>, \<open>head\<close>, \<open>tail\<close>, \<open>prev\<close> and \<open>next\<close> refer to, and \<open>fresh\<close> is the
  next address the allocator hands out. The lock \<open>mu\<close> has no field: every function below
  is one critical section, or a sequence of them run without interruption.
\<close>

record ('k, 'v) Cache =
  items :: "('k \<times> addr) list"
  capacity :: int
  head :: "addr option"
  tail :: "addr option"
  heap :: "addr \<Rightarrow> 'v CacheEntry"
  fresh :: addr

type_synonym error = string

text \<open>
  A call of \<open>Get\<close> returns \<open>(value, err)\<close>, or panics (calling a nil \<open>compute\<close>), or blocks
  for ever on a channel nobody will close.
\<close>

datatype 'v outcome = Returned 'v "error option" | Panicked | Blocked

text \<open>
  The argument \<open>compute func() (V, error)\<close>: \<open>None\<close> is the nil function, \<open>Some (v, e)\<close> a
  function that returns \<open>(v, e)\<close>.
\<close>

type_synonym 'v compute = "('v \<times> error option) option"

definition zeroEntry :: "'v::default CacheEntry" where
  "zeroEntry = \<lparr>value_e = default, expiresAt = None, ready = False, prev = None, next_e = None\<rparr>"

section \<open>Operations\<close>

definition New :: "int \<Rightarrow> ('k, 'v::default) Cache" where
  "New cap =
     \<lparr>items = [], capacity = (if cap \<le> 0 then 1000 else cap), head = None, tail = None,
      heap = (\<lambda>_. zeroEntry), fresh = 0\<rparr>"

text \<open>
  The two statements \<open>if entry.prev != nil { entry.prev.next = entry.next }\<close> and
  \<open>if entry.next != nil { entry.next.prev = entry.prev }\<close>, which open \<open>moveToFront\<close>
  (lines 43-48), \<open>Delete\<close> (195-200) and the loop body of \<open>Cleanup\<close> (236-241).
\<close>

definition bypass :: "(addr \<Rightarrow> 'v CacheEntry) \<Rightarrow> addr \<Rightarrow> (addr \<Rightarrow> 'v CacheEntry)" where
  "bypass h entry =
     (let h1 = (case prev (h entry) of
                  None \<Rightarrow> h
                | Some p \<Rightarrow> h(p := (h p)\<lparr>next_e := next_e (h entry)\<rparr>))
      in (case next_e (h1 entry) of
            None \<Rightarrow> h1
          | Some n \<Rightarrow> h1(n := (h1 n)\<lparr>prev := prev (h1 entry)\<rparr>)))"

definition moveToFront :: "('k, 'v) Cache \<Rightarrow> addr \<Rightarrow> ('k, 'v) Cache" where
  "moveToFront c entry =
     (if Some entry = head c then c
      else
        let h1 = bypass (heap c) entry;
            t1 = (if Some entry = tail c then prev (h1 entry) else tail c);
            h2 = h1(entry := (h1 entry)\<lparr>prev := None, next_e := head c\<rparr>);
            h3 = (case head c of
                    None \<Rightarrow> h2
                  | Some f \<Rightarrow> h2(f := (h2 f)\<lparr>prev := Some entry\<rparr>))
        in c\<lparr>heap := h3, head := Some entry,
             tail := (if t1 = None then Some entry else t1)\<rparr>)"

text \<open>
  \<open>removeTail\<close>: the key is searched by scanning the map for the tail's pointer; when no
  key maps to it, \<open>key\<close> keeps its zero value and \<open>delete(c.items, key)\<close> deletes that.
\<close>

definition tailKey :: "('k::default, 'v) Cache \<Rightarrow> addr \<Rightarrow> 'k" where
  "tailKey c t = (case find (\<lambda>kv. snd kv = t) (items c) of
                    Some kv \<Rightarrow> fst kv
                  | None \<Rightarrow> default)"

definition removeTail :: "('k::default, 'v) Cache \<Rightarrow> ('k, 'v) Cache" where
  "removeTail c =
     (case tail c of
        None \<Rightarrow> c
      | Some t \<Rightarrow>
          let c1 = c\<lparr>items := AList.delete (tailKey c t) (items c)\<rparr>;
              h1 = (case prev (heap c1 t) of
                      None \<Rightarrow> heap c1
                    | Some p \<Rightarrow> (heap c1)(p := (heap c1 p)\<lparr>next_e := None\<rparr>));
              c2 = c1\<lparr>heap := h1, tail := prev (h1 t)\<rparr>
          in if tail c2 = None then c2\<lparr>head := None\<rparr> else c2)"

text \<open>
  \<open>if len(c.items) >= c.capacity { c.removeTail() }\<close>, the statement that precedes the
  insertion in \<open>Get\<close> (lines 131-133) and in \<open>Set\<close> (166-168).
\<close>

definition evictIfFull :: "('k::default, 'v) Cache \<Rightarrow> ('k, 'v) Cache" where
  "evictIfFull c = (if int (length (items c)) \<ge> capacity c then removeTail c else c)"

text \<open>\<open>!entry.expiresAt.IsZero() && now.After(entry.expiresAt)\<close>\<close>

definition expired :: "'v CacheEntry \<Rightarrow> int \<Rightarrow> bool" where
  "expired e now = (case expiresAt e of None \<Rightarrow> False | Some t \<Rightarrow> now > t)"

text \<open>\<open>Set\<close>; \<open>now\<close> is what \<open>time.Now()\<close> returns.\<close>

definition Set :: "('k::default, 'v) Cache \<Rightarrow> 'k \<Rightarrow> 'v \<Rightarrow> int \<Rightarrow> int \<Rightarrow> ('k, 'v) Cache" where
  "Set c key v expiration now =
     (let c1 = evictIfFull c;
          entry = fresh c1;
          e = \<lparr>value_e = v,
               expiresAt = (if expiration > 0 then Some (now + expiration) else None),
               ready = True, prev = None, next_e = None\<rparr>;
          c2 = c1\<lparr>heap := (heap c1)(entry := e), fresh := Suc entry\<rparr>;
          c3 = c2\<lparr>items := AList.update key entry (items c2)\<rparr>
      in moveToFront c3 entry)"

text \<open>
  The block shared by \<open>Delete\<close> (lines 194-206) and the loop body of \<open>Cleanup\<close>
  (235-247): take the entry out of the list, moving \<open>head\<close> and \<open>tail\<close> off it.
\<close>

definition unlink :: "('k, 'v) Cache \<Rightarrow> addr \<Rightarrow> ('k, 'v) Cache" where
  "unlink c entry =
     (let h1 = bypass (heap c) entry;
          hd1 = (if Some entry = head c then next_e (h1 entry) else head c);
          t1 = (if Some entry = tail c then prev (h1 entry) else tail c)
      in c\<lparr>heap := h1, head := hd1, tail := t1\<rparr>)"

definition Delete :: "('k, 'v) Cache \<Rightarrow> 'k \<Rightarrow> ('k, 'v) Cache" where
  "Delete c key =
     (case map_of (items c) key of
        None \<Rightarrow> c
      | Some entry \<Rightarrow>
          (let c1 = unlink c entry in c1\<lparr>items := AList.delete key (items c1)\<rparr>))"

definition Clear :: "('k, 'v) Cache \<Rightarrow> ('k, 'v) Cache" where
  "Clear c = c\<lparr>items := [], head := None, tail := None\<rparr>"

definition Size :: "('k, 'v) Cache \<Rightarrow> int" where
  "Size c = int (length (items c))"

text \<open>
  \<open>Cleanup\<close>: the range loop visits every pair of the map once (it deletes only the key it
  is at); \<open>now\<close> is read once, before the loop.
\<close>

fun Cleanup_loop :: "int \<Rightarrow> ('k \<times> addr) list \<Rightarrow> ('k, 'v) Cache \<Rightarrow> ('k, 'v) Cache" where
  "Cleanup_loop now [] c = c"
| "Cleanup_loop now (kv # rest) c =
     Cleanup_loop now rest
       (if expired (heap c (snd kv)) now
        then (let c1 = unlink c (snd kv) in c1\<lparr>items := AList.delete (fst kv) (items c1)\<rparr>)
        else c)"

definition Cleanup :: "('k, 'v) Cache \<Rightarrow> int \<Rightarrow> ('k, 'v) Cache" where
  "Cleanup c now = Cleanup_loop now (items c) c"


text \<open>
  \<open>Get\<close>, lines 130-141: with the write lock held and the key absent, evict if full,
  allocate the reserved entry (zero value, channel open), insert it and put it in front.
\<close>

definition reserve :: "('k::default, 'v::default) Cache \<Rightarrow> 'k \<Rightarrow> ('k, 'v) Cache \<times> addr" where
  "reserve c key =
     (let c1 = evictIfFull c;
          entry = fresh c1;
          c2 = c1\<lparr>heap := (heap c1)(entry := zeroEntry), fresh := Suc entry\<rparr>;
          c3 = c2\<lparr>items := AList.update key entry (items c2)\<rparr>
      in (moveToFront c3 entry, entry))"

text \<open>
  \<open>Get\<close>, lines 144-157: call \<open>compute\<close> (a nil function value panics); on an error delete
  the key from the map and close the channel, otherwise store the value and close the
  channel.
\<close>

definition closeReady :: "('k, 'v) Cache \<Rightarrow> addr \<Rightarrow> ('k, 'v) Cache" where
  "closeReady c entry = c\<lparr>heap := (heap c)(entry := (heap c entry)\<lparr>ready := True\<rparr>)\<rparr>"

definition deleteKey :: "('k, 'v) Cache \<Rightarrow> 'k \<Rightarrow> ('k, 'v) Cache" where
  "deleteKey c key = c\<lparr>items := AList.delete key (items c)\<rparr>"

definition storeValue :: "('k, 'v) Cache \<Rightarrow> addr \<Rightarrow> 'v \<Rightarrow> ('k, 'v) Cache" where
  "storeValue c entry v = c\<lparr>heap := (heap c)(entry := (heap c entry)\<lparr>value_e := v\<rparr>)\<rparr>"

definition computeAndPublish ::
  "('k, 'v) Cache \<Rightarrow> 'k \<Rightarrow> addr \<Rightarrow> 'v compute \<Rightarrow> 'v outcome \<times> ('k, 'v) Cache" where
  "computeAndPublish c key entry compute =
     (case compute of
        None \<Rightarrow> (Panicked, c)
      | Some (v, Some err) \<Rightarrow> (Returned v (Some err), closeReady (deleteKey c key) entry)
      | Some (v, None) \<Rightarrow> (Returned v None, closeReady (storeValue c entry v) entry))"

text \<open>
  \<open>Get\<close>, run without another goroutine in between. \<open>now\<close> is what \<open>time.Now()\<close>
  returns at line 103 (the only place that reads the clock). Receiving from a channel
  that is still open blocks.
\<close>

function Get ::
  "('k::default, 'v::default) Cache \<Rightarrow> 'k \<Rightarrow> 'v compute \<Rightarrow> int \<Rightarrow> 'v outcome \<times> ('k, 'v) Cache" where
  "Get c key compute now =
     (case map_of (items c) key of
        Some entry \<Rightarrow>
          if \<not> ready (heap c entry) then (Blocked, c)
          else if expired (heap c entry) now then Get (deleteKey c key) key compute now
          else (let c1 = moveToFront c entry in (Returned (value_e (heap c1 entry)) None, c1))
      | None \<Rightarrow>
          (case map_of (items c) key of
             Some entry \<Rightarrow>
               if \<not> ready (heap c entry) then (Blocked, c)
               else (Returned (value_e (heap c entry)) None, c)
           | None \<Rightarrow>
               (let (c1, entry) = reserve c key in computeAndPublish c1 key entry compute)))"
  by pat_completeness auto
termination
proof (relation "measure (\<lambda>(c, key, compute, now). length (items c))")
  show "wf (measure (\<lambda>(c, key, compute, now). length (items c)))"
    by simp
next
  fix c :: "('k, 'v) Cache" and key :: 'k and compute :: "'v compute" and now :: int and entry
  assume present: "map_of (items c) key = Some entry"
  have "length (AList.delete k al) < length al" if "map_of al k = Some a"
    for al :: "('k \<times> addr) list" and k a
    using that by (induction al) (auto simp: less_Suc_eq_le AList.delete_eq split: if_splits)
  from this [OF present]
  show "((deleteKey c key, key, compute, now), (c, key, compute, now))
          \<in> measure (\<lambda>(c, key, compute, now). length (items c))"
    by (simp add: deleteKey_def)
qed

section \<open>\<open>Get\<close> among other goroutines\<close>

text \<open>
  \<open>Get\<close> holds the lock only in pieces. Between two pieces another goroutine may run, so
  a call in progress is a program point together with the locals live there:
  \<^item> \<open>Lookup\<close>: line 94, before the read-locked lookup;
  \<^item> \<open>AwaitHit entry\<close>: line 100, receiving from \<open>entry.ready\<close> on the hit path;
  \<^item> \<open>EvictExpired\<close>: line 105, the test of line 103 has found the entry expired;
  \<^item> \<open>Promote entry\<close>: line 112, the entry was not expired;
  \<^item> \<open>Admit\<close>: line 120, before the write-locked second lookup;
  \<^item> \<open>AwaitAdmitted entry\<close>: line 126, receiving from \<open>entry.ready\<close> after the second lookup;
  \<^item> \<open>Compute entry\<close>: line 144, the entry is reserved and the lock released;
  \<^item> \<open>RemoveFailed entry value err\<close>: line 147, \<open>compute\<close> has returned an error;
  \<^item> \<open>CloseFailed entry value err\<close>: line 150;
  \<^item> \<open>Publish entry value\<close>: line 155, \<open>compute\<close> has succeeded;
  \<^item> \<open>Done r\<close>: the call is over with outcome \<open>r\<close>.
\<close>

datatype 'v pc =
    Lookup
  | AwaitHit addr
  | EvictExpired
  | Promote addr
  | Admit
  | AwaitAdmitted addr
  | Compute addr
  | RemoveFailed addr 'v error
  | CloseFailed addr 'v error
  | Publish addr 'v
  | Done "'v outcome"

text \<open>
  One piece of \<open>Get key compute\<close>, run atomically from the given program point at clock
  \<open>now\<close>; \<open>None\<close> when the goroutine cannot move (the channel is still open, or the call is
  over). Every piece is one critical section, or statements on locals and on the
  goroutine's own entry.
\<close>

fun Get_step ::
  "('k::default, 'v::default) Cache \<Rightarrow> 'k \<Rightarrow> 'v compute \<Rightarrow> int \<Rightarrow> 'v pc
     \<Rightarrow> (('k, 'v) Cache \<times> 'v pc) option" where
  "Get_step c key compute now Lookup =
     (case map_of (items c) key of
        Some entry \<Rightarrow> Some (c, AwaitHit entry)
      | None \<Rightarrow> Some (c, Admit))"
| "Get_step c key compute now (AwaitHit entry) =
     (if \<not> ready (heap c entry) then None
      else if expired (heap c entry) now then Some (c, EvictExpired)
      else Some (c, Promote entry))"
| "Get_step c key compute now EvictExpired = Some (deleteKey c key, Lookup)"
| "Get_step c key compute now (Promote entry) =
     (let c1 = moveToFront c entry in Some (c1, Done (Returned (value_e (heap c1 entry)) None)))"
| "Get_step c key compute now Admit =
     (case map_of (items c) key of
        Some entry \<Rightarrow> Some (c, AwaitAdmitted entry)
      | None \<Rightarrow> (let (c1, entry) = reserve c key in Some (c1, Compute entry)))"
| "Get_step c key compute now (AwaitAdmitted entry) =
     (if \<not> ready (heap c entry) then None
      else Some (c, Done (Returned (value_e (heap c entry)) None)))"
| "Get_step c key compute now (Compute entry) =
     (case compute of
        None \<Rightarrow> Some (c, Done Panicked)
      | Some (v, Some err) \<Rightarrow> Some (c, RemoveFailed entry v err)
      | Some (v, None) \<Rightarrow> Some (c, Publish entry v))"
| "Get_step c key compute now (RemoveFailed entry v err) =
     Some (deleteKey c key, CloseFailed entry v err)"
| "Get_step c key compute now (CloseFailed entry v err) =
     Some (closeReady c entry, Done (Returned v (Some err)))"
| "Get_step c key compute now (Publish entry v) =
     Some (closeReady (storeValue c entry v) entry, Done (Returned v None))"
| "Get_step c key compute now (Done r) = None"

text \<open>
  A goroutine inside a call \<open>Get key compute\<close>, and the events of a schedule: goroutine
  \<open>i\<close> runs its next piece (reading the clock as \<open>now\<close> if it reads it), or some other
  goroutine runs a whole \<open>Set\<close>, \<open>Delete\<close>, \<open>Clear\<close> or \<open>Cleanup\<close>, each of which is a single
  critical section.
\<close>

record ('k, 'v) goroutine =
  g_key :: 'k
  g_compute :: "'v compute"
  g_pc :: "'v pc"

datatype ('k, 'v) event =
    GetStep nat int
  | SetCall 'k 'v int int
  | DeleteCall 'k
  | ClearCall
  | CleanupCall int

fun event_step ::
  "('k::default, 'v::default) Cache \<times> ('k, 'v) goroutine list \<Rightarrow> ('k, 'v) event
     \<Rightarrow> (('k, 'v) Cache \<times> ('k, 'v) goroutine list) option" where
  "event_step (c, gs) (GetStep i now) =
     (if i < length gs
      then (case Get_step c (g_key (gs ! i)) (g_compute (gs ! i)) now (g_pc (gs ! i)) of
              None \<Rightarrow> None
            | Some (c1, pc1) \<Rightarrow> Some (c1, gs[i := (gs ! i)\<lparr>g_pc := pc1\<rparr>]))
      else None)"
| "event_step (c, gs) (SetCall key v expiration now) = Some (Set c key v expiration now, gs)"
| "event_step (c, gs) (DeleteCall key) = Some (Delete c key, gs)"
| "event_step (c, gs) ClearCall = Some (Clear c, gs)"
| "event_step (c, gs) (CleanupCall now) = Some (Cleanup c now, gs)"

text \<open>A schedule is run event by event; it is not a run of the program when an event cannot happen.\<close>

fun run ::
  "('k::default, 'v::default) Cache \<times> ('k, 'v) goroutine list \<Rightarrow> ('k, 'v) event list
     \<Rightarrow> (('k, 'v) Cache \<times> ('k, 'v) goroutine list) option" where
  "run s [] = Some s"
| "run s (e # es) = (case event_step s e of None \<Rightarrow> None | Some s1 \<Rightarrow> run s1 es)"

definition call :: "'k \<Rightarrow> 'v compute \<Rightarrow> ('k, 'v) goroutine" where
  "call key compute = \<lparr>g_key = key, g_compute = compute, g_pc = Lookup\<rparr>"

text \<open>The outcomes of the calls that are over, goroutine by goroutine.\<close>

fun result :: "('k, 'v) goroutine \<Rightarrow> 'v outcome option" where
  "result g = (case g_pc g of Done r \<Rightarrow> Some r | _ \<Rightarrow> None)"

text \<open>What a schedule leaves behind: the outcomes, the index at a key, an entry, the head.\<close>

definition outcomes ::
  "(('k, 'v) Cache \<times> ('k, 'v) goroutine list) option \<Rightarrow> 'v outcome option list option" where
  "outcomes s = map_option (\<lambda>(c, gs). map result gs) s"

definition indexAt ::
  "(('k, 'v) Cache \<times> ('k, 'v) goroutine list) option \<Rightarrow> 'k \<Rightarrow> addr option option" where
  "indexAt s key = map_option (\<lambda>(c, gs). map_of (items c) key) s"

definition entryAt ::
  "(('k, 'v) Cache \<times> ('k, 'v) goroutine list) option \<Rightarrow> addr \<Rightarrow> 'v CacheEntry option" where
  "entryAt s a = map_option (\<lambda>(c, gs). heap c a) s"

definition headAt :: "(('k, 'v) Cache \<times> ('k, 'v) goroutine list) option \<Rightarrow> addr option option" where
  "headAt s = map_option (\<lambda>(c, gs). head c) s"

text \<open>
  A goroutine running alone from a program point: it takes pieces until the call is over
  (at most \<open>n\<close> of them); a piece that cannot move blocks for ever.
\<close>

fun alone ::
  "nat \<Rightarrow> ('k::default, 'v::default) Cache \<Rightarrow> 'k \<Rightarrow> 'v compute \<Rightarrow> int \<Rightarrow> 'v pc
     \<Rightarrow> ('v outcome \<times> ('k, 'v) Cache) option" where
  "alone n c key compute now (Done r) = Some (r, c)"
| "alone 0 c key compute now p = None"
| "alone (Suc n) c key compute now p =
     (case Get_step c key compute now p of
        None \<Rightarrow> Some (Blocked, c)
      | Some (c1, p1) \<Rightarrow> alone n c1 key compute now p1)"

section \<open>The recency list as a list of addresses\<close>

text \<open>
  \<open>seg h p xs q\<close>: in the heap \<open>h\<close> the entries \<open>xs\<close> are chained by \<open>next\<close> and \<open>prev\<close> in this
  order, the first one's \<open>prev\<close> being \<open>p\<close> and the last one's \<open>next\<close> being \<open>q\<close>.
\<close>

fun seg :: "(addr \<Rightarrow> 'v CacheEntry) \<Rightarrow> addr option \<Rightarrow> addr list \<Rightarrow> addr option \<Rightarrow> bool" where
  "seg h p [] q = True"
| "seg h p [a] q = (prev (h a) = p \<and> next_e (h a) = q)"
| "seg h p (a # b # bs) q = (prev (h a) = p \<and> next_e (h a) = Some b \<and> seg h (Some a) (b # bs) q)"

definition first :: "addr list \<Rightarrow> addr option" where
  "first xs = (case xs of [] \<Rightarrow> None | a # _ \<Rightarrow> Some a)"

definition final :: "addr list \<Rightarrow> addr option" where
  "final xs = (if xs = [] then None else Some (last xs))"

text \<open>
  \<open>recencyList c xs\<close>: the recency list of \<open>c\<close>, from \<open>head\<close> (most recently used) to \<open>tail\<close>,
  is \<open>xs\<close>: no entry twice, \<open>prev\<close> and \<open>next\<close> paired, \<open>head\<close> and \<open>tail\<close> nil exactly when
  the list is empty.
\<close>

definition recencyList :: "('k, 'v) Cache \<Rightarrow> addr list \<Rightarrow> bool" where
  "recencyList c xs =
     (distinct xs \<and> seg (heap c) None xs None \<and> head c = first xs \<and> tail c = final xs)"

definition entries :: "('k, 'v) Cache \<Rightarrow> addr set" where
  "entries c = snd ` set (items c)"

text \<open>
  The invariant of the specification: the recency list holds exactly the entries of the
  index.
\<close>

definition listMatchesIndex :: "('k, 'v) Cache \<Rightarrow> bool" where
  "listMatchesIndex c = (\<exists>xs. recencyList c xs \<and> set xs = entries c)"

text \<open>
  What the operations do keep: \<open>items\<close> is a map, no two keys share an entry, every entry
  of the index is in the recency list \<open>xs\<close>, and the list holds allocated entries only.
\<close>

definition wellFormed :: "('k, 'v) Cache \<Rightarrow> addr list \<Rightarrow> bool" where
  "wellFormed c xs =
     (recencyList c xs \<and> distinct (map fst (items c)) \<and> distinct (map snd (items c)) \<and>
      entries c \<subseteq> set xs \<and> set xs \<subseteq> {..<fresh c})"

text \<open>
  The caches that calls which do not overlap can produce. A \<open>Get\<close> that panicked or
  blocked counts with the cache it left behind.
\<close>

inductive reachable :: "('k::default, 'v::default) Cache \<Rightarrow> bool" where
  reachable_New: "reachable (New cap)"
| reachable_Set: "reachable c \<Longrightarrow> reachable (Set c key v expiration now)"
| reachable_Get: "reachable c \<Longrightarrow> reachable (snd (Get c key compute now))"
| reachable_Delete: "reachable c \<Longrightarrow> reachable (Delete c key)"
| reachable_Clear: "reachable c \<Longrightarrow> reachable (Clear c)"
| reachable_Cleanup: "reachable c \<Longrightarrow> reachable (Cleanup c now)"

section \<open>Scenarios\<close>

text \<open>
  The scenario of the LRU property: capacity 3, \<open>Set(A,1,0); Set(B,2,0); Set(C,3,0);
  Get(A); Set(D,4,0)\<close>, with \<open>Get\<close> called on a nil \<open>compute\<close> as the tests do. The clock
  does not matter here and stays at 0.
\<close>

definition lruScenario :: "(string, int) Cache" where
  "lruScenario =
     Set (snd (Get (Set (Set (Set (New 3) ''A'' 1 0 0) ''B'' 2 0 0) ''C'' 3 0 0) ''A'' None 0))
       ''D'' 4 0 0"

text \<open>A key set twice: \<open>New(2); Set(a,1,0); Set(a,2,0)\<close>.\<close>

definition overwritten :: "(string, int) Cache" where
  "overwritten = Set (Set (New 2) ''a'' 1 0 0) ''a'' 2 0 0"

text \<open>A failed computation: \<open>New(2); Get(k, func() (int, error) { return 5, boom })\<close>.\<close>

definition failedGet :: "int outcome \<times> (string, int) Cache" where
  "failedGet = Get (New 2) ''k'' (Some (5, Some ''boom'')) 0"

text \<open>
  An expired key read again: \<open>New(2); Set(k,1,1ns)\<close> at time 0, then \<open>Get(k, compute)\<close> at
  time 5 with a \<open>compute\<close> that returns \<open>(9, nil)\<close>.
\<close>

definition expiredGet :: "int outcome \<times> (string, int) Cache" where
  "expiredGet = Get (Set (New 2) ''k'' 1 1 0) ''k'' (Some (9, None)) 5"

text \<open>
  Two goroutines call \<open>Get\<close> on the absent key \<open>k\<close>; the \<open>compute\<close> of the first fails with
  \<open>boom\<close>, that of the second would return 7. The first is admitted and reserves the
  entry, the second finds the entry and waits on it, the first fails, deletes the key,
  closes the channel and returns, and then the second goes on.
\<close>

definition twoGets :: "((string, int) Cache \<times> (string, int) goroutine list) option" where
  "twoGets =
     run (New 2, [call ''k'' (Some (0, Some ''boom'')), call ''k'' (Some (7, None))])
       [GetStep 0 0, GetStep 0 0, GetStep 1 0, GetStep 0 0, GetStep 0 0, GetStep 0 0,
        GetStep 1 0, GetStep 1 0]"

text \<open>
  A \<open>Set\<close> between the expiry test and the delete: \<open>Set(k,1,1ns)\<close> at time 0; at time 5 a
  \<open>Get(k)\<close> looks the key up and finds its entry expired; another goroutine runs
  \<open>Set(k,2,0)\<close> (\<open>setBeforeEviction\<close>); the \<open>Get\<close> takes the write lock and deletes
  (\<open>setDuringEviction\<close>).
\<close>

definition setBeforeEviction :: "((string, int) Cache \<times> (string, int) goroutine list) option" where
  "setBeforeEviction =
     run (New 2, [call ''k'' (Some (9, None))])
       [SetCall ''k'' 1 1 0, GetStep 0 5, GetStep 0 5, SetCall ''k'' 2 0 5]"

definition setDuringEviction :: "((string, int) Cache \<times> (string, int) goroutine list) option" where
  "setDuringEviction =
     run (New 2, [call ''k'' (Some (9, None))])
       [SetCall ''k'' 1 1 0, GetStep 0 5, GetStep 0 5, SetCall ''k'' 2 0 5, GetStep 0 5]"

text \<open>
  A \<open>Set\<close> between the two lookups: a \<open>Get(k)\<close> misses under the read lock; other
  goroutines run \<open>Set(k,7,1ns)\<close> and \<open>Set(j,8,0)\<close> at time 0; at time 5 the \<open>Get\<close> takes the
  write lock, finds \<open>k\<close> and goes on.
\<close>

definition setBeforeAdmission :: "((string, int) Cache \<times> (string, int) goroutine list) option" where
  "setBeforeAdmission =
     run (New 2, [call ''k'' (Some (9, None))])
       [GetStep 0 0, SetCall ''k'' 7 1 0, SetCall ''j'' 8 0 0, GetStep 0 5, GetStep 0 5]"

text \<open>
  The same schedule with a negative duration: \<open>Set(k,1,1ns)\<close> at time 0; at time 5 a
  \<open>Get(k)\<close> looks the key up and finds its entry expired; another goroutine runs
  \<open>Set(k,2,-3ns)\<close> (\<open>unexpiringBeforeEviction\<close>); the \<open>Get\<close> takes the write lock and deletes
  (\<open>unexpiringDuringEviction\<close>).
\<close>

definition unexpiringBeforeEviction ::
  "((string, int) Cache \<times> (string, int) goroutine list) option" where
  "unexpiringBeforeEviction =
     run (New 2, [call ''k'' (Some (9, None))])
       [SetCall ''k'' 1 1 0, GetStep 0 5, GetStep 0 5, SetCall ''k'' 2 (- 3) 5]"

definition unexpiringDuringEviction ::
  "((string, int) Cache \<times> (string, int) goroutine list) option" where
  "unexpiringDuringEviction =
     run (New 2, [call ''k'' (Some (9, None))])
       [SetCall ''k'' 1 1 0, GetStep 0 5, GetStep 0 5, SetCall ''k'' 2 (- 3) 5, GetStep 0 5]"

text \<open>
  A key set twice with a lifetime of 1ns, both times at time 0:
  \<open>New(2); Set(a,1,1ns); Set(a,2,1ns)\<close>.
\<close>

definition staleExpired :: "(string, int) Cache" where
  "staleExpired = Set (Set (New 2) ''a'' 1 1 0) ''a'' 2 1 0"

section \<open>Lemmas on the recency list and the index\<close>

declare Get.simps [simp del]

subsection \<open>The cases of \<open>Get\<close>\<close>

lemma Get_miss:
  "map_of (items c) key = None \<Longrightarrow>
   Get c key compute now = (let (c1, entry) = reserve c key in computeAndPublish c1 key entry compute)"
  by (subst Get.simps) simp

lemma Get_blocked:
  "map_of (items c) key = Some entry \<Longrightarrow> \<not> ready (heap c entry) \<Longrightarrow>
   Get c key compute now = (Blocked, c)"
  by (subst Get.simps) simp

lemma Get_expired:
  "map_of (items c) key = Some entry \<Longrightarrow> ready (heap c entry) \<Longrightarrow> expired (heap c entry) now \<Longrightarrow>
   Get c key compute now = Get (deleteKey c key) key compute now"
  by (subst Get.simps) simp

lemma Get_hit:
  "map_of (items c) key = Some entry \<Longrightarrow> ready (heap c entry) \<Longrightarrow> \<not> expired (heap c entry) now \<Longrightarrow>
   Get c key compute now =
     (Returned (value_e (heap (moveToFront c entry) entry)) None, moveToFront c entry)"
  by (subst Get.simps) (simp add: Let_def)

lemma map_of_deleteKey [simp]: "map_of (items (deleteKey c key)) key = None"
  by (simp add: deleteKey_def AList.delete_conv')

lemma Get_nil_miss:
  "map_of (items c) key = None \<Longrightarrow> fst (Get c key None now) = Panicked"
  by (simp add: Get_miss computeAndPublish_def split: prod.splits)

lemma Get_nil_expired:
  "map_of (items c) key = Some entry \<Longrightarrow> ready (heap c entry) \<Longrightarrow> expired (heap c entry) now \<Longrightarrow>
   fst (Get c key None now) = Panicked"
  by (simp add: Get_expired Get_nil_miss)

subsection \<open>Chains of entries\<close>

lemma seg_Cons:
  "seg h p (a # as) q =
     (prev (h a) = p \<and> next_e (h a) = (case as of [] \<Rightarrow> q | b # _ \<Rightarrow> Some b) \<and> seg h (Some a) as q)"
  by (cases as) auto

lemma seg_append:
  "seg h p (ys @ zs) q =
     (seg h p ys (case zs of [] \<Rightarrow> q | z # _ \<Rightarrow> Some z) \<and>
      seg h (if ys = [] then p else Some (last ys)) zs q)"
proof (induction ys arbitrary: p)
  case Nil
  show ?case by simp
next
  case (Cons y ys)
  show ?case
    using Cons.IH [of "Some y"] by (cases ys; cases zs) (auto simp: seg_Cons)
qed

lemma seg_frame:
  "(\<And>a. a \<in> set xs \<Longrightarrow> prev (h' a) = prev (h a) \<and> next_e (h' a) = next_e (h a)) \<Longrightarrow>
   seg h' p xs q = seg h p xs q"
  by (induction xs arbitrary: p) (auto simp: seg_Cons)

lemma seg_upd_other [simp]: "x \<notin> set xs \<Longrightarrow> seg (h(x := e)) p xs q = seg h p xs q"
  by (rule seg_frame) auto

lemma seg_unique:
  "seg h p xs None \<Longrightarrow> seg h p' ys None \<Longrightarrow> first xs = first ys \<Longrightarrow> xs = ys"
proof (induction xs arbitrary: ys p p')
  case Nil
  then show ?case by (cases ys) (auto simp: first_def)
next
  case (Cons a as)
  then obtain bs where ys: "ys = a # bs" by (cases ys) (auto simp: first_def)
  from Cons.prems ys have "first as = first bs"
    by (auto simp: seg_Cons first_def split: list.splits)
  with Cons ys show ?case by (auto simp: seg_Cons)
qed

lemma bypass_seg:
  assumes "distinct (ys @ a # zs)" "seg h None (ys @ a # zs) None"
  shows "seg (bypass h a) None (ys @ zs) None"
    and "prev (bypass h a a) = final ys" and "next_e (bypass h a a) = first zs"
  using assms
  by (cases ys rule: rev_cases; cases zs;
      auto simp: bypass_def seg_append seg_Cons final_def first_def Let_def split: list.splits)+


lemma first_simps [simp]: "first [] = None" "first (a # as) = Some a"
  by (simp_all add: first_def)

lemma final_simps [simp]: "final [] = None" "final (as @ [a]) = Some a"
  by (simp_all add: final_def)

lemma first_append: "first (ys @ zs) = (if ys = [] then first zs else first ys)"
  by (cases ys) auto

lemma final_append: "final (ys @ zs) = (if zs = [] then final ys else final zs)"
  by (auto simp: final_def)

lemma final_Cons: "final (a # as) = (if as = [] then Some a else final as)"
  by (auto simp: final_def)

lemma unlink_list:
  assumes "recencyList c (ys @ a # zs)"
  shows "recencyList (unlink c a) (ys @ zs)"
proof -
  from assms have d: "distinct (ys @ a # zs)" and s: "seg (heap c) None (ys @ a # zs) None"
    and h: "head c = first (ys @ a # zs)" and t: "tail c = final (ys @ a # zs)"
    by (simp_all add: recencyList_def)
  note b = bypass_seg [OF d s]
  from d h have hd: "(Some a = head c) = (ys = [])"
    by (cases ys) auto
  from d t have tl: "(Some a = tail c) = (zs = [])"
    by (cases zs rule: rev_cases) (auto simp: final_append final_Cons)
  from d have "distinct (ys @ zs)" by simp
  then show ?thesis
    using b h t hd tl
    by (auto simp: recencyList_def unlink_def Let_def first_append final_append final_Cons)
qed


lemma push_front_seg:
  assumes "seg h None xs None" "a \<notin> set xs" "distinct xs"
  shows "seg ((case first xs of
                 None \<Rightarrow> h(a := (h a)\<lparr>prev := None, next_e := first xs\<rparr>)
               | Some f \<Rightarrow> (h(a := (h a)\<lparr>prev := None, next_e := first xs\<rparr>))
                             (f := ((h(a := (h a)\<lparr>prev := None, next_e := first xs\<rparr>)) f)\<lparr>prev := Some a\<rparr>)))
             None (a # xs) None"
  using assms by (cases xs) (auto simp: seg_Cons split: list.splits)

lemma moveToFront_member:
  assumes "recencyList c (ys @ a # zs)"
  shows "recencyList (moveToFront c a) (a # ys @ zs)"
proof (cases ys)
  case Nil
  with assms show ?thesis by (simp add: recencyList_def moveToFront_def)
next
  case (Cons y ys')
  from assms have d: "distinct (ys @ a # zs)" and s: "seg (heap c) None (ys @ a # zs) None"
    and h: "head c = first (ys @ a # zs)" and t: "tail c = final (ys @ a # zs)"
    by (simp_all add: recencyList_def)
  note b = bypass_seg [OF d s]
  from d h Cons have hd: "Some a \<noteq> head c" "head c = first (ys @ zs)"
    by auto
  from d t have tl: "(Some a = tail c) = (zs = [])"
    by (cases zs rule: rev_cases) (auto simp: final_append final_Cons)
  from d have d': "distinct (ys @ zs)" "a \<notin> set (ys @ zs)" by auto
  have t1: "(if Some a = tail c then prev (bypass (heap c) a a) else tail c) = final (ys @ zs)"
    using b(2) t tl by (auto simp: final_append final_Cons)
  have ne: "final (ys @ zs) \<noteq> None" using Cons by (simp add: final_def)
  from push_front_seg [OF b(1) d'(2) d'(1)]
  show ?thesis
    using d hd t1 ne
    by (simp add: recencyList_def moveToFront_def Let_def final_Cons del: distinct_append)
       (auto simp: final_def)
qed

lemma bypass_unlinked: "prev (h a) = None \<Longrightarrow> next_e (h a) = None \<Longrightarrow> bypass h a = h"
  by (simp add: bypass_def)

lemma moveToFront_new:
  assumes "recencyList c xs" "a \<notin> set xs" "prev (heap c a) = None" "next_e (heap c a) = None"
  shows "recencyList (moveToFront c a) (a # xs)"
proof -
  from assms have d: "distinct xs" and s: "seg (heap c) None xs None"
    and h: "head c = first xs" and t: "tail c = final xs"
    by (simp_all add: recencyList_def)
  from h assms(2) have hd: "Some a \<noteq> head c" by (cases xs) auto
  from t assms(2) have tl: "Some a \<noteq> tail c" by (cases xs rule: rev_cases) auto
  from push_front_seg [OF s assms(2) d]
  show ?thesis
    using d hd tl h t assms(2-)
    by (simp add: recencyList_def moveToFront_def Let_def bypass_unlinked final_Cons)
       (auto simp: final_def)
qed

lemma removeTail_empty: "recencyList c [] \<Longrightarrow> removeTail c = c"
  by (simp add: recencyList_def removeTail_def)

lemma removeTail_list:
  assumes "recencyList c (ys @ [t])"
  shows "recencyList (removeTail c) ys"
  using assms
  by (cases ys rule: rev_cases)
     (auto simp: recencyList_def removeTail_def Let_def seg_append seg_Cons final_def first_append)


subsection \<open>What the list operations leave alone\<close>

lemma bypass_fields [simp]:
  "value_e (bypass h a x) = value_e (h x)"
  "expiresAt (bypass h a x) = expiresAt (h x)"
  "ready (bypass h a x) = ready (h x)"
  by (auto simp: bypass_def Let_def split: option.splits)

lemma expired_cong: "expiresAt e = expiresAt e' \<Longrightarrow> expired e now = expired e' now"
  by (simp add: expired_def)

lemma unlink_fields [simp]:
  "items (unlink c a) = items c" "fresh (unlink c a) = fresh c" "capacity (unlink c a) = capacity c"
  "value_e (heap (unlink c a) x) = value_e (heap c x)"
  "expiresAt (heap (unlink c a) x) = expiresAt (heap c x)"
  "ready (heap (unlink c a) x) = ready (heap c x)"
  by (simp_all add: unlink_def Let_def)

lemma moveToFront_fields [simp]:
  "items (moveToFront c a) = items c" "fresh (moveToFront c a) = fresh c"
  "capacity (moveToFront c a) = capacity c"
  "value_e (heap (moveToFront c a) x) = value_e (heap c x)"
  "expiresAt (heap (moveToFront c a) x) = expiresAt (heap c x)"
  "ready (heap (moveToFront c a) x) = ready (heap c x)"
  by (auto simp: moveToFront_def Let_def split: option.splits)

lemma removeTail_fields [simp]:
  "fresh (removeTail c) = fresh c" "capacity (removeTail c) = capacity c"
  "value_e (heap (removeTail c) x) = value_e (heap c x)"
  "expiresAt (heap (removeTail c) x) = expiresAt (heap c x)"
  "ready (heap (removeTail c) x) = ready (heap c x)"
  by (auto simp: removeTail_def Let_def split: option.splits)

lemma removeTail_items:
  "items (removeTail c) =
     (case tail c of None \<Rightarrow> items c | Some t \<Rightarrow> AList.delete (tailKey c t) (items c))"
  by (auto simp: removeTail_def Let_def split: option.splits)

lemma expired_unlink [simp]: "expired (heap (unlink c a) x) now = expired (heap c x) now"
  by (rule expired_cong) simp

subsection \<open>The index as an association list\<close>

lemma entries_delete_subset: "snd ` set (AList.delete k al) \<subseteq> snd ` set al"
  by (auto simp: AList.delete_eq)

lemma distinct_snd_delete: "distinct (map snd al) \<Longrightarrow> distinct (map snd (AList.delete k al))"
  by (simp add: AList.delete_eq distinct_map_filter)

lemma entry_gone_after_delete:
  "distinct (map snd al) \<Longrightarrow> (k, a) \<in> set al \<Longrightarrow> a \<notin> snd ` set (AList.delete k al)"
  by (induction al) (auto simp: AList.delete_eq rev_image_eqI)

lemma entries_update_subset: "snd ` set (AList.update k a al) \<subseteq> insert a (snd ` set al)"
  by (induction al) auto

lemma distinct_snd_update:
  "distinct (map snd al) \<Longrightarrow> a \<notin> snd ` set al \<Longrightarrow> distinct (map snd (AList.update k a al))"
proof (induction al)
  case Nil
  show ?case by simp
next
  case (Cons p al)
  then show ?case
    using entries_update_subset [of k a al] by (cases p) auto
qed

lemma delete_eq_removeAll:
  "distinct (map fst al) \<Longrightarrow> (k, a) \<in> set al \<Longrightarrow> AList.delete k al = filter (\<lambda>kv. kv \<noteq> (k, a)) al"
  unfolding AList.delete_eq
  by (rule filter_cong) (auto dest: eq_key_imp_eq_value)

lemma find_snd_member:
  "t \<in> snd ` set al \<Longrightarrow>
   ((case find (\<lambda>kv. snd kv = t) al of Some kv \<Rightarrow> fst kv | None \<Rightarrow> d), t) \<in> set al"
  by (induction al) auto

text \<open>
  When no two keys share an entry, the scan of \<open>removeTail\<close> finds the same key in whatever
  order it visits the map.
\<close>

lemma tailKey_unique:
  assumes "distinct (map snd (items c))" "(k, t) \<in> set (items c)"
  shows "tailKey c t = k"
proof -
  have "(case find (\<lambda>kv. snd kv = t) al of Some kv \<Rightarrow> fst kv | None \<Rightarrow> d) = k"
    if "distinct (map snd al)" "(k, t) \<in> set al" for al :: "('a \<times> addr) list" and d
    using that by (induction al) (auto simp: rev_image_eqI)
  from this [OF assms] show ?thesis by (simp add: tailKey_def)
qed

lemma tailKey_member: "t \<in> entries c \<Longrightarrow> (tailKey c t, t) \<in> set (items c)"
  unfolding tailKey_def entries_def by (rule find_snd_member)

subsection \<open>Well-formedness is kept by every operation\<close>

lemma wellFormed_New: "wellFormed (New cap) []"
  by (simp add: wellFormed_def recencyList_def New_def entries_def)

lemma wellFormed_Clear: "wellFormed (Clear c) []"
  by (simp add: wellFormed_def recencyList_def Clear_def entries_def)

lemma recencyList_unique: "recencyList c xs \<Longrightarrow> recencyList c ys \<Longrightarrow> xs = ys"
  by (auto simp: recencyList_def intro: seg_unique)

lemma wellFormed_deleteKey: "wellFormed c xs \<Longrightarrow> wellFormed (deleteKey c key) xs"
  using entries_delete_subset [of key "items c"]
  by (auto simp: wellFormed_def deleteKey_def entries_def recencyList_def
        AList.distinct_delete distinct_snd_delete)

lemma recencyList_fields_cong:
  assumes "\<And>a. prev (heap c' a) = prev (heap c a) \<and> next_e (heap c' a) = next_e (heap c a)"
    and "head c' = head c" "tail c' = tail c"
  shows "recencyList c' xs = recencyList c xs"
  using seg_frame [of xs "heap c'" "heap c" None None] assms by (simp add: recencyList_def)

lemma wellFormed_closeReady: "wellFormed c xs \<Longrightarrow> wellFormed (closeReady c entry) xs"
proof -
  have "recencyList (closeReady c entry) xs = recencyList c xs"
    by (rule recencyList_fields_cong) (simp_all add: closeReady_def)
  then show "wellFormed c xs \<Longrightarrow> wellFormed (closeReady c entry) xs"
    by (simp add: wellFormed_def entries_def) (simp add: closeReady_def)
qed

lemma wellFormed_storeValue: "wellFormed c xs \<Longrightarrow> wellFormed (storeValue c entry v) xs"
proof -
  have "recencyList (storeValue c entry v) xs = recencyList c xs"
    by (rule recencyList_fields_cong) (simp_all add: storeValue_def)
  then show "wellFormed c xs \<Longrightarrow> wellFormed (storeValue c entry v) xs"
    by (simp add: wellFormed_def entries_def) (simp add: storeValue_def)
qed

lemma wellFormed_removeTail:
  assumes "wellFormed c xs"
  shows "wellFormed (removeTail c) (butlast xs)"
proof (cases xs rule: rev_cases)
  case Nil
  with assms show ?thesis by (simp add: wellFormed_def removeTail_empty)
next
  case (snoc ys t)
  with assms have l: "recencyList c (ys @ [t])" and t: "tail c = Some t"
    by (simp_all add: wellFormed_def recencyList_def)
  have it: "items (removeTail c) = AList.delete (tailKey c t) (items c)"
    using t by (simp add: removeTail_items)
  have "t \<notin> snd ` set (AList.delete (tailKey c t) (items c))"
  proof (cases "t \<in> entries c")
    case True
    from assms tailKey_member [OF True] show ?thesis
      by (intro entry_gone_after_delete) (simp_all add: wellFormed_def)
  next
    case False
    then show ?thesis
      using entries_delete_subset [of "tailKey c t" "items c"] by (auto simp: entries_def)
  qed
  moreover have "snd ` set (AList.delete (tailKey c t) (items c)) \<subseteq> set (ys @ [t])"
    using assms snoc entries_delete_subset [of "tailKey c t" "items c"]
    by (auto simp: wellFormed_def entries_def)
  ultimately have "entries (removeTail c) \<subseteq> set ys"
    by (auto simp: entries_def it)
  with assms snoc removeTail_list [OF l] show ?thesis
    by (auto simp: wellFormed_def it AList.distinct_delete distinct_snd_delete)
qed

lemma evictIfFull_fresh [simp]: "fresh (evictIfFull c) = fresh c"
  by (simp add: evictIfFull_def)

lemma wellFormed_evictIfFull:
  "wellFormed c xs \<Longrightarrow>
   wellFormed (evictIfFull c) (if int (length (items c)) \<ge> capacity c then butlast xs else xs)"
  by (simp add: evictIfFull_def wellFormed_removeTail)

lemma wellFormed_insert:
  assumes "wellFormed c xs" "prev e = None" "next_e e = None"
  shows "wellFormed
           (moveToFront (c\<lparr>heap := (heap c)(fresh c := e), fresh := Suc (fresh c),
                            items := AList.update key (fresh c) (items c)\<rparr>) (fresh c))
           (fresh c # xs)"
proof -
  let ?c3 = "c\<lparr>heap := (heap c)(fresh c := e), fresh := Suc (fresh c),
               items := AList.update key (fresh c) (items c)\<rparr>"
  from assms(1) have f: "fresh c \<notin> set xs" "fresh c \<notin> snd ` set (items c)"
    by (auto simp: wellFormed_def entries_def)
  from assms(1) f have "recencyList ?c3 xs"
    by (simp add: wellFormed_def recencyList_def)
  from moveToFront_new [OF this f(1)] assms(2,3)
  have "recencyList (moveToFront ?c3 (fresh c)) (fresh c # xs)" by simp
  then show ?thesis
    using assms(1) f entries_update_subset [of key "fresh c" "items c"]
    by (auto simp: wellFormed_def entries_def AList.distinct_update distinct_snd_update)
qed

lemma wellFormed_Set:
  assumes "wellFormed c xs"
  shows "wellFormed (Set c key v expiration now)
           (fresh c # (if int (length (items c)) \<ge> capacity c then butlast xs else xs))"
  using wellFormed_insert [OF wellFormed_evictIfFull [OF assms], of _ key]
  by (simp add: Set_def Let_def)

lemma wellFormed_reserve:
  assumes "wellFormed c xs"
  shows "wellFormed (fst (reserve c key))
           (fresh c # (if int (length (items c)) \<ge> capacity c then butlast xs else xs))"
  using wellFormed_insert [OF wellFormed_evictIfFull [OF assms], of zeroEntry key]
  by (simp add: reserve_def Let_def zeroEntry_def)

lemma wellFormed_computeAndPublish:
  "wellFormed c xs \<Longrightarrow> wellFormed (snd (computeAndPublish c key entry compute)) xs"
  by (auto simp: computeAndPublish_def wellFormed_closeReady wellFormed_storeValue
        wellFormed_deleteKey split: option.splits prod.splits)

lemma wellFormed_moveToFront:
  assumes "wellFormed c xs" "a \<in> set xs"
  shows "wellFormed (moveToFront c a) (a # remove1 a xs)"
proof -
  from split_list_first [OF assms(2)] obtain ys zs where xs: "xs = ys @ a # zs" "a \<notin> set ys"
    by blast
  then have r: "remove1 a xs = ys @ zs" by (simp add: remove1_append)
  from assms(1) have "recencyList c (ys @ a # zs)" by (simp add: wellFormed_def xs)
  then have l: "recencyList (moveToFront c a) (a # ys @ zs)" by (rule moveToFront_member)
  have s: "set (a # ys @ zs) = set xs" by (auto simp: xs)
  from assms(1) have "distinct (map fst (items c))" "distinct (map snd (items c))"
    "entries c \<subseteq> set xs" "set xs \<subseteq> {..<fresh c}"
    by (simp_all add: wellFormed_def)
  with l show ?thesis
    unfolding r wellFormed_def s by (simp add: entries_def)
qed

lemma wellFormed_unlink_delete:
  assumes "wellFormed c xs" "(key, a) \<in> set (items c)"
  shows "wellFormed ((unlink c a)\<lparr>items := AList.delete key (items c)\<rparr>) (remove1 a xs)"
proof -
  from assms(1) have w: "distinct xs" "distinct (map fst (items c))" "distinct (map snd (items c))"
    "entries c \<subseteq> set xs" "set xs \<subseteq> {..<fresh c}"
    by (simp_all add: wellFormed_def recencyList_def)
  from assms(2) w(4) have "a \<in> set xs" by (force simp: entries_def)
  from split_list_first [OF this] obtain ys zs where xs: "xs = ys @ a # zs" "a \<notin> set ys"
    by blast
  then have r: "remove1 a xs = ys @ zs" by (simp add: remove1_append)
  from assms(1) have "recencyList c (ys @ a # zs)" by (simp add: wellFormed_def xs)
  then have "recencyList (unlink c a) (ys @ zs)" by (rule unlink_list)
  then have l: "recencyList ((unlink c a)\<lparr>items := AList.delete key (items c)\<rparr>) (ys @ zs)"
    by (simp add: recencyList_def)
  have gone: "a \<notin> snd ` set (AList.delete key (items c))"
    using w(3) assms(2) by (rule entry_gone_after_delete)
  have s: "set (ys @ zs) = set xs - {a}" using w(1) by (auto simp: xs)
  have sub: "snd ` set (AList.delete key (items c)) \<subseteq> set xs - {a}"
  proof
    fix b assume b: "b \<in> snd ` set (AList.delete key (items c))"
    with entries_delete_subset [of key "items c"] w(4) have "b \<in> set xs"
      unfolding entries_def by blast
    moreover from b gone have "b \<noteq> a" by blast
    ultimately show "b \<in> set xs - {a}" by simp
  qed
  have e: "entries ((unlink c a)\<lparr>items := AList.delete key (items c)\<rparr>) \<subseteq> set (ys @ zs)"
    unfolding s using sub by (simp add: entries_def)
  have f: "set (ys @ zs) \<subseteq> {..<fresh (unlink c a)}"
    unfolding s using w(5) by auto
  have g: "distinct (map fst (AList.delete key (items c)))"
    "distinct (map snd (AList.delete key (items c)))"
    using w(2,3) by (simp_all add: AList.distinct_delete distinct_snd_delete)
  show ?thesis
    unfolding r wellFormed_def using l e f g by simp
qed

lemma wellFormed_Delete:
  assumes "wellFormed c xs"
  shows "wellFormed (Delete c key)
           (case map_of (items c) key of None \<Rightarrow> xs | Some a \<Rightarrow> remove1 a xs)"
proof (cases "map_of (items c) key")
  case None
  with assms show ?thesis by (simp add: Delete_def)
next
  case (Some a)
  then have "(key, a) \<in> set (items c)" by (rule map_of_SomeD)
  from wellFormed_unlink_delete [OF assms this] Some show ?thesis
    by (simp add: Delete_def Let_def)
qed

lemma wellFormed_Get:
  fixes c :: "('k::default, 'v::default) Cache"
  assumes "wellFormed c xs"
  shows "\<exists>xs'. wellFormed (snd (Get c key compute now)) xs'"
proof -
  have miss: "\<exists>xs'. wellFormed (snd (Get c' key compute now)) xs'"
    if "wellFormed c' xs" "map_of (items c') key = None" for c' :: "('k, 'v) Cache"
    using wellFormed_computeAndPublish [OF wellFormed_reserve [OF that(1)], of key key "snd (reserve c' key)" compute]
      that(2)
    by (auto simp: Get_miss split: prod.splits)
  show ?thesis
  proof (cases "map_of (items c) key")
    case None
    with assms show ?thesis by (rule miss)
  next
    case (Some e)
    then have "(key, e) \<in> set (items c)" by (rule map_of_SomeD)
    with assms have e: "e \<in> set xs" by (force simp: wellFormed_def entries_def)
    consider "\<not> ready (heap c e)" | "ready (heap c e)" "expired (heap c e) now"
      | "ready (heap c e)" "\<not> expired (heap c e) now" by blast
    then show ?thesis
    proof cases
      case 1
      with Some assms show ?thesis by (auto simp: Get_blocked)
    next
      case 2
      from miss [OF wellFormed_deleteKey [OF assms]] Some 2 show ?thesis
        by (simp add: Get_expired)
    next
      case 3
      with Some wellFormed_moveToFront [OF assms e] show ?thesis
        by (auto simp: Get_hit)
    qed
  qed
qed

lemma Cleanup_loop_spec:
  assumes "wellFormed c xs" "set rest \<subseteq> set (items c)" "distinct (map fst rest)"
  shows "items (Cleanup_loop now rest c) =
           filter (\<lambda>kv. \<not> (kv \<in> set rest \<and> expired (heap c (snd kv)) now)) (items c) \<and>
         wellFormed (Cleanup_loop now rest c)
           (filter (\<lambda>a. \<not> (a \<in> snd ` set rest \<and> expired (heap c a) now)) xs) \<and>
         fresh (Cleanup_loop now rest c) = fresh c \<and>
         capacity (Cleanup_loop now rest c) = capacity c \<and>
         (\<forall>x. value_e (heap (Cleanup_loop now rest c) x) = value_e (heap c x) \<and>
              expiresAt (heap (Cleanup_loop now rest c) x) = expiresAt (heap c x) \<and>
              ready (heap (Cleanup_loop now rest c) x) = ready (heap c x))"
  using assms
proof (induction rest arbitrary: c xs)
  case Nil
  then show ?case by simp
next
  case (Cons kv rest)
  obtain k a where kv: "kv = (k, a)" by (cases kv)
  from Cons.prems have w: "distinct xs" "distinct (map fst (items c))"
    by (simp_all add: wellFormed_def recencyList_def)
  from Cons.prems kv have mem: "(k, a) \<in> set (items c)" and notin: "(k, a) \<notin> set rest"
    and k: "k \<notin> fst ` set rest" and d: "distinct (map fst rest)"
    by (auto simp: rev_image_eqI)
  show ?case
  proof (cases "expired (heap c a) now")
    case False
    have f1: "filter (\<lambda>x. \<not> (x \<in> set (kv # rest) \<and> expired (heap c (snd x)) now)) (items c) =
              filter (\<lambda>x. \<not> (x \<in> set rest \<and> expired (heap c (snd x)) now)) (items c)"
      by (rule filter_cong) (use False kv in auto)
    have f2: "filter (\<lambda>x. \<not> (x \<in> snd ` set (kv # rest) \<and> expired (heap c x) now)) xs =
              filter (\<lambda>x. \<not> (x \<in> snd ` set rest \<and> expired (heap c x) now)) xs"
      by (rule filter_cong) (use False kv in auto)
    have step: "Cleanup_loop now (kv # rest) c = Cleanup_loop now rest c"
      using False kv by simp
    from Cons.prems(2) have "set rest \<subseteq> set (items c)" by simp
    from Cons.IH [OF Cons.prems(1) this d]
    show ?thesis unfolding step f1 f2 .
  next
    case True
    let ?c1 = "(unlink c a)\<lparr>items := AList.delete k (items c)\<rparr>"
    have w1: "wellFormed ?c1 (remove1 a xs)"
      using Cons.prems(1) mem by (rule wellFormed_unlink_delete)
    have it: "items ?c1 = filter (\<lambda>kv. kv \<noteq> (k, a)) (items c)"
      using delete_eq_removeAll [OF w(2) mem] by simp
    have sub: "set rest \<subseteq> set (items ?c1)"
      using Cons.prems(2) notin by (auto simp: it)
    have r: "remove1 a xs = filter (\<lambda>x. x \<noteq> a) xs"
    proof -
      have "filter (\<lambda>x. x \<noteq> a) ys = ys" if "a \<notin> set ys" for ys :: "addr list"
        using that by (induction ys) auto
      with w(1) show ?thesis by (induction xs) auto
    qed
    have ex: "expired (heap ?c1 x) now = expired (heap c x) now" for x
      by (rule expired_cong) simp
    have step: "Cleanup_loop now (kv # rest) c = Cleanup_loop now rest ?c1"
      using True kv by (simp add: Let_def)
    have g1: "filter (\<lambda>x. \<not> (x \<in> set rest \<and> expired (heap c (snd x)) now))
                (filter (\<lambda>kv. kv \<noteq> (k, a)) (items c)) =
              filter (\<lambda>x. \<not> (x \<in> set (kv # rest) \<and> expired (heap c (snd x)) now)) (items c)"
      unfolding filter_filter by (rule filter_cong) (use True kv in auto)
    have g2: "filter (\<lambda>x. \<not> (x \<in> snd ` set rest \<and> expired (heap c x) now))
                (filter (\<lambda>x. x \<noteq> a) xs) =
              filter (\<lambda>x. \<not> (x \<in> snd ` set (kv # rest) \<and> expired (heap c x) now)) xs"
      unfolding filter_filter by (rule filter_cong) (use True kv in auto)
    from Cons.IH [OF w1 sub d]
    show ?thesis
      unfolding step it r ex g1 g2 by simp
  qed
qed

subsection \<open>A call running alone\<close>

lemma alone_Get:
  fixes c :: "('k::default, 'v::default) Cache"
  shows "alone 8 c key compute now Lookup = Some (Get c key compute now)"
proof -
  have miss: "alone 5 c' key compute now Lookup = Some (Get c' key compute now)"
    if "map_of (items c') key = None" for c' :: "('k, 'v) Cache"
    using that
    by (cases compute)
       (auto simp: Get_miss computeAndPublish_def eval_nat_numeral Let_def
          split: prod.splits option.splits)
  have more: "alone (Suc n) c' key compute now p = Some r"
    if "alone n c' key compute now p = Some r" for n p r and c' :: "('k, 'v) Cache"
    using that
  proof (induction n arbitrary: c' p)
    case 0
    then show ?case by (cases p) auto
  next
    case (Suc n)
    show ?case
    proof (cases "Get_step c' key compute now p")
      case None
      with Suc.prems show ?thesis by (cases p) auto
    next
      case (Some s)
      with Suc.prems Suc.IH [of "fst s" "snd s"] show ?thesis
        by (cases p; cases s) auto
    qed
  qed
  show ?thesis
  proof (cases "map_of (items c) key")
    case None
    from more [OF more [OF more [OF miss [OF None]]]] show ?thesis
      by (simp add: eval_nat_numeral)
  next
    case (Some e)
    consider "\<not> ready (heap c e)" | "ready (heap c e)" "expired (heap c e) now"
      | "ready (heap c e)" "\<not> expired (heap c e) now" by blast
    then show ?thesis
    proof cases
      case 1
      with Some show ?thesis by (simp add: Get_blocked eval_nat_numeral)
    next
      case 2
      have "alone 5 (deleteKey c key) key compute now Lookup
              = Some (Get (deleteKey c key) key compute now)"
        by (rule miss) simp
      with Some 2 show ?thesis by (simp add: Get_expired eval_nat_numeral)
    next
      case 3
      with Some show ?thesis by (simp add: Get_hit eval_nat_numeral Let_def)
    qed
  qed
qed


subsection \<open>\<open>Cleanup\<close> as a whole\<close>

lemma Cleanup_spec:
  assumes "wellFormed c xs"
  shows "items (Cleanup c now) = filter (\<lambda>kv. \<not> expired (heap c (snd kv)) now) (items c)"
    and "wellFormed (Cleanup c now)
           (filter (\<lambda>a. \<not> (a \<in> entries c \<and> expired (heap c a) now)) xs)"
    and "fresh (Cleanup c now) = fresh c" and "capacity (Cleanup c now) = capacity c"
    and "value_e (heap (Cleanup c now) x) = value_e (heap c x)"
    and "expiresAt (heap (Cleanup c now) x) = expiresAt (heap c x)"
    and "ready (heap (Cleanup c now) x) = ready (heap c x)"
proof -
  from assms have d: "distinct (map fst (items c))" by (simp add: wellFormed_def)
  note spec = Cleanup_loop_spec [OF assms subset_refl d, of now, folded Cleanup_def entries_def]
  have "filter (\<lambda>kv. \<not> (kv \<in> set (items c) \<and> expired (heap c (snd kv)) now)) (items c) =
        filter (\<lambda>kv. \<not> expired (heap c (snd kv)) now) (items c)"
    by (rule filter_cong) auto
  with spec show "items (Cleanup c now) = filter (\<lambda>kv. \<not> expired (heap c (snd kv)) now) (items c)"
    by simp
  from spec show "wellFormed (Cleanup c now)
           (filter (\<lambda>a. \<not> (a \<in> entries c \<and> expired (heap c a) now)) xs)"
    and "fresh (Cleanup c now) = fresh c" and "capacity (Cleanup c now) = capacity c"
    and "value_e (heap (Cleanup c now) x) = value_e (heap c x)"
    and "expiresAt (heap (Cleanup c now) x) = expiresAt (heap c x)"
    and "ready (heap (Cleanup c now) x) = ready (heap c x)"
    by simp_all
qed

text \<open>Every cache that calls which do not overlap can produce is well-formed.\<close>

lemma reachable_wellFormed: "reachable c \<Longrightarrow> \<exists>xs. wellFormed c xs"
proof (induction rule: reachable.induct)
  case (reachable_New cap)
  show ?case using wellFormed_New by (rule exI)
next
  case (reachable_Set c key v expiration now)
  from reachable_Set.IH obtain xs where "wellFormed c xs" ..
  from wellFormed_Set [OF this] show ?case by (rule exI)
next
  case (reachable_Get c key compute now)
  from reachable_Get.IH obtain xs where "wellFormed c xs" ..
  then show ?case by (rule wellFormed_Get)
next
  case (reachable_Delete c key)
  from reachable_Delete.IH obtain xs where "wellFormed c xs" ..
  from wellFormed_Delete [OF this] show ?case by (rule exI)
next
  case (reachable_Clear c)
  show ?case using wellFormed_Clear by (rule exI)
next
  case (reachable_Cleanup c now)
  from reachable_Cleanup.IH obtain xs where "wellFormed c xs" ..
  from Cleanup_spec(2) [OF this] show ?case by (rule exI)
qed

text \<open>The index after \<open>Cleanup\<close>, whatever the state of the recency list.\<close>

lemma Cleanup_loop_items:
  "items (Cleanup_loop now rest c) =
     filter (\<lambda>kv. fst kv \<notin> fst ` {x \<in> set rest. expired (heap c (snd x)) now}) (items c) \<and>
   (\<forall>x. expiresAt (heap (Cleanup_loop now rest c) x) = expiresAt (heap c x) \<and>
        value_e (heap (Cleanup_loop now rest c) x) = value_e (heap c x) \<and>
        ready (heap (Cleanup_loop now rest c) x) = ready (heap c x))"
proof (induction rest arbitrary: c)
  case Nil
  show ?case by simp
next
  case (Cons kv rest)
  show ?case
  proof (cases "expired (heap c (snd kv)) now")
    case False
    have "filter (\<lambda>p. fst p \<notin> fst ` {x \<in> set (kv # rest). expired (heap c (snd x)) now}) (items c) =
          filter (\<lambda>p. fst p \<notin> fst ` {x \<in> set rest. expired (heap c (snd x)) now}) (items c)"
      by (rule filter_cong) (use False in auto)
    with Cons.IH [of c] False show ?thesis by simp
  next
    case True
    let ?c1 = "(unlink c (snd kv))\<lparr>items := AList.delete (fst kv) (items c)\<rparr>"
    have ex: "expired (heap ?c1 x) now = expired (heap c x) now" for x
      by (rule expired_cong) simp
    have step: "Cleanup_loop now (kv # rest) c = Cleanup_loop now rest ?c1"
      using True by (simp add: Let_def)
    have "filter (\<lambda>p. fst p \<notin> fst ` {x \<in> set rest. expired (heap c (snd x)) now})
            (AList.delete (fst kv) (items c)) =
          filter (\<lambda>p. fst p \<notin> fst ` {x \<in> set (kv # rest). expired (heap c (snd x)) now}) (items c)"
      unfolding AList.delete_eq filter_filter
      by (rule filter_cong) (use True in \<open>auto simp: case_prod_unfold\<close>)
    with Cons.IH [of ?c1] show ?thesis
      unfolding step ex by simp
  qed
qed

lemma map_of_filter_key:
  "map_of (filter (\<lambda>kv. P (fst kv)) al) k = (if P k then map_of al k else None)"
  by (induction al) auto

lemma Cleanup_keeps_unexpired:
  assumes "distinct (map fst (items c))" "map_of (items c) key = Some e"
    "\<not> expired (heap c e) now"
  shows "map_of (items (Cleanup c now)) key = Some e"
proof -
  have "key \<notin> fst ` {x \<in> set (items c). expired (heap c (snd x)) now}"
  proof
    assume "key \<in> fst ` {x \<in> set (items c). expired (heap c (snd x)) now}"
    then obtain e' where "(key, e') \<in> set (items c)" "expired (heap c e') now" by auto
    with assms(1,2) have "e' = e" by (auto dest: map_of_is_SomeI)
    with \<open>expired (heap c e') now\<close> assms(3) show False by simp
  qed
  then show ?thesis
    using Cleanup_loop_items [of now "items c" c] assms(2)
      map_of_filter_key [of "\<lambda>k. k \<notin> fst ` {x \<in> set (items c). expired (heap c (snd x)) now}"
        "items c" key]
    by (simp add: Cleanup_def)
qed

lemma Cleanup_fields [simp]:
  "expiresAt (heap (Cleanup c now) x) = expiresAt (heap c x)"
  "value_e (heap (Cleanup c now) x) = value_e (heap c x)"
  "ready (heap (Cleanup c now) x) = ready (heap c x)"
  using Cleanup_loop_items [of now "items c" c] by (simp_all add: Cleanup_def)

subsection \<open>The entry made by \<open>Set\<close>\<close>

lemma head_moveToFront [simp]: "head (moveToFront c a) = Some a"
  by (auto simp: moveToFront_def Let_def)

lemma moveToFront_head: "head c = Some a \<Longrightarrow> moveToFront c a = c"
  by (simp add: moveToFront_def)

lemma distinct_keys_evictIfFull:
  "distinct (map fst (items c)) \<Longrightarrow> distinct (map fst (items (evictIfFull c)))"
  by (auto simp: evictIfFull_def removeTail_items AList.distinct_delete split: option.splits)

lemma Set_entry:
  "map_of (items (Set c key v expiration now)) key = Some (fresh c)"
  "head (Set c key v expiration now) = Some (fresh c)"
  "value_e (heap (Set c key v expiration now) (fresh c)) = v"
  "expiresAt (heap (Set c key v expiration now) (fresh c)) =
     (if expiration > 0 then Some (now + expiration) else None)"
  "ready (heap (Set c key v expiration now) (fresh c))"
  by (simp_all add: Set_def Let_def AList.update_conv')

lemma distinct_keys_Set:
  "distinct (map fst (items c)) \<Longrightarrow> distinct (map fst (items (Set c key v expiration now)))"
  by (simp add: Set_def Let_def AList.distinct_update distinct_keys_evictIfFull)

text \<open>
  An entry made by \<open>Set\<close> with a duration that is zero or negative has no expiry time: the
  expiry test holds of it at no time, a \<open>Get\<close> of the key that overlaps no other call
  returns the value and leaves the cache as it is, and \<open>Cleanup\<close> keeps the key.
\<close>

lemma Set_without_expiry:
  fixes c :: "('k::default, 'v::default) Cache"
  assumes "expiration \<le> 0" "distinct (map fst (items c))"
  shows "map_of (items (Set c key v expiration now)) key = Some (fresh c) \<and>
         expiresAt (heap (Set c key v expiration now) (fresh c)) = None \<and>
         (\<forall>now1. \<not> expired (heap (Set c key v expiration now) (fresh c)) now1) \<and>
         (\<forall>now1 compute. Get (Set c key v expiration now) key compute now1
                            = (Returned v None, Set c key v expiration now)) \<and>
         (\<forall>now1. map_of (items (Cleanup (Set c key v expiration now) now1)) key = Some (fresh c) \<and>
                  expiresAt (heap (Cleanup (Set c key v expiration now) now1) (fresh c)) = None)"
proof -
  let ?c = "Set c key v expiration now"
  note e = Set_entry [of c key v expiration now]
  from assms(1) e(4) have x: "expiresAt (heap ?c (fresh c)) = None" by simp
  then have n: "\<not> expired (heap ?c (fresh c)) now1" for now1
    by (simp add: expired_def)
  have g: "Get ?c key compute now1 = (Returned v None, ?c)" for now1 compute
    using Get_hit [OF e(1) e(5) n, of compute now1] by (simp add: moveToFront_head [OF e(2)] e(3))
  have k: "map_of (items (Cleanup ?c now1)) key = Some (fresh c)" for now1
    using distinct_keys_Set [OF assms(2)] e(1) n by (rule Cleanup_keeps_unexpired)
  from e(1) x n g k show ?thesis by simp
qed

subsection \<open>Where the list does match the index\<close>

text \<open>
  \<open>Delete\<close>, \<open>Clear\<close> and \<open>Cleanup\<close> unlink what they delete: from a well-formed cache whose
  recency list holds exactly the entries of the index they lead to such a cache again.
\<close>

lemma entries_delete_eq:
  assumes "distinct (map snd al)" "(k, a) \<in> set al" "distinct (map fst al)"
  shows "snd ` set (AList.delete k al) = snd ` set al - {a}"
proof
  show "snd ` set (AList.delete k al) \<subseteq> snd ` set al - {a}"
    using entry_gone_after_delete [OF assms(1,2)] entries_delete_subset [of k al] by blast
next
  show "snd ` set al - {a} \<subseteq> snd ` set (AList.delete k al)"
  proof
    fix b assume "b \<in> snd ` set al - {a}"
    then obtain k' where "(k', b) \<in> set al" "b \<noteq> a" by auto
    with assms(2,3) have "k' \<noteq> k \<or> b = a"
      by (auto dest: eq_key_imp_eq_value)
    with \<open>b \<noteq> a\<close> \<open>(k', b) \<in> set al\<close> show "b \<in> snd ` set (AList.delete k al)"
      by (force simp: AList.delete_eq)
  qed
qed

lemma listMatchesIndex_Delete:
  assumes "wellFormed c xs" "set xs = entries c"
  shows "listMatchesIndex (Delete c key)"
proof (cases "map_of (items c) key")
  case None
  with assms show ?thesis
    by (auto simp: Delete_def listMatchesIndex_def wellFormed_def)
next
  case (Some a)
  then have mem: "(key, a) \<in> set (items c)" by (rule map_of_SomeD)
  from assms(1) have d: "distinct xs" "distinct (map snd (items c))" "distinct (map fst (items c))"
    by (simp_all add: wellFormed_def recencyList_def)
  from wellFormed_Delete [OF assms(1), of key] Some
  have "recencyList (Delete c key) (remove1 a xs)"
    by (simp add: wellFormed_def)
  moreover have "set (remove1 a xs) = entries (Delete c key)"
    using d(1) assms(2) entries_delete_eq [OF d(2) mem d(3)] Some
    by (simp add: Delete_def Let_def entries_def)
  ultimately show ?thesis
    unfolding listMatchesIndex_def by blast
qed

lemma listMatchesIndex_Clear: "listMatchesIndex (Clear c)"
  using wellFormed_Clear [of c]
  by (auto simp: listMatchesIndex_def wellFormed_def entries_def Clear_def)

lemma listMatchesIndex_Cleanup:
  assumes "wellFormed c xs" "set xs = entries c"
  shows "listMatchesIndex (Cleanup c now)"
proof -
  from Cleanup_spec(2) [OF assms(1), of now]
  have "recencyList (Cleanup c now)
          (filter (\<lambda>a. \<not> (a \<in> entries c \<and> expired (heap c a) now)) xs)"
    by (simp add: wellFormed_def)
  moreover have "set (filter (\<lambda>a. \<not> (a \<in> entries c \<and> expired (heap c a) now)) xs)
                   = entries (Cleanup c now)"
    unfolding entries_def Cleanup_spec(1) [OF assms(1)]
    using assms(2) by (auto simp: entries_def)
  ultimately show ?thesis
    unfolding listMatchesIndex_def by blast
qed

text \<open>
  As long as the recency list holds exactly the entries of the index, a \<open>Set\<close> keeps the
  size within the capacity.
\<close>

lemma length_update_le: "length (AList.update k v al) \<le> Suc (length al)"
  by (induction al) auto

lemma length_delete_member:
  "(k, a) \<in> set al \<Longrightarrow> Suc (length (AList.delete k al)) \<le> length al"
proof (induction al)
  case Nil
  then show ?case by simp
next
  case (Cons p al)
  have "length (AList.delete k al) \<le> length al"
    by (simp add: AList.delete_eq)
  with Cons show ?case
    by (cases p) (auto simp: AList.delete_eq)
qed

lemma Set_within_capacity:
  assumes "wellFormed c xs" "set xs = entries c" "Size c \<le> capacity c" "0 < capacity c"
  shows "Size (Set c key v expiration now) \<le> capacity c"
proof -
  have it: "items (Set c key v expiration now)
              = AList.update key (fresh c) (items (evictIfFull c))"
    by (simp add: Set_def Let_def)
  have "int (length (items (evictIfFull c))) < capacity c"
  proof (cases "int (length (items c)) \<ge> capacity c")
    case False
    then show ?thesis by (simp add: evictIfFull_def)
  next
    case True
    with assms(4) have "items c \<noteq> []" by auto
    with assms(2) have "xs \<noteq> []" by (auto simp: entries_def)
    then obtain ys t where xs: "xs = ys @ [t]" by (cases xs rule: rev_cases) auto
    with assms(1) have t: "tail c = Some t" by (simp add: wellFormed_def recencyList_def)
    from xs assms(2) have "t \<in> entries c" by auto
    from length_delete_member [OF tailKey_member [OF this]] True assms(3) t show ?thesis
      by (simp add: evictIfFull_def removeTail_items Size_def)
  qed
  with length_update_le [of key "fresh c" "items (evictIfFull c)"] show ?thesis
    by (simp add: Size_def it)
qed

section \<open>The claims\<close>

text \<open>
  Claim C1 says that \<open>Size()\<close> never exceeds the capacity after a \<open>Set\<close>. On a cache of
  capacity 2, \<open>Set(a,1,0); Set(a,2,0); Set(b,3,0); Set(c,4,0)\<close> leaves three entries in the
  index: the second \<open>Set\<close> replaces the entry of \<open>a\<close> in the map but leaves the old one in
  the recency list, so the eviction of the fourth \<open>Set\<close> removes that stale tail, finds no
  key for it and deletes nothing from the map.
\<close>

theorem Set_overwrite_exceeds_capacity:
  "Size (Set (Set overwritten ''b'' 3 0 0) ''c'' 4 0 0) = 3 \<and>
   capacity (Set (Set overwritten ''b'' 3 0 0) ''c'' 4 0 0) = 2"
  by code_simp

text \<open>
  Claim C2 says that every operation keeps the recency list equal to the set of entries of
  the index. A fresh cache has the property and one \<open>Set\<close> keeps it, but a second \<open>Set\<close> on
  the same key breaks it (the list is then the new entry followed by the replaced one),
  and so do a \<open>Get\<close> whose \<open>compute\<close> fails and a \<open>Get\<close> on an expired key: both delete the key
  from the map and leave the entry in the list.
\<close>

theorem Set_overwrite_breaks_listMatchesIndex:
  "listMatchesIndex (Set (New 2 :: (string, int) Cache) ''a'' 1 0 0) \<and>
   \<not> listMatchesIndex overwritten \<and>
   \<not> listMatchesIndex (snd failedGet) \<and>
   \<not> listMatchesIndex (snd expiredGet)"
proof -
  have no: "\<not> listMatchesIndex c" if "recencyList c ys" "set ys \<noteq> entries c"
    for c :: "(string, int) Cache" and ys
  proof
    assume "listMatchesIndex c"
    then obtain xs where "recencyList c xs" "set xs = entries c"
      unfolding listMatchesIndex_def by blast
    with recencyList_unique [OF that(1), of xs] that(2) show False by simp
  qed
  have "recencyList (Set (New 2 :: (string, int) Cache) ''a'' 1 0 0) [0]"
    and "items (Set (New 2 :: (string, int) Cache) ''a'' 1 0 0) = [(''a'', 0)]"
    by code_simp+
  then have "recencyList (Set (New 2 :: (string, int) Cache) ''a'' 1 0 0) [0] \<and>
             set [0] = entries (Set (New 2 :: (string, int) Cache) ''a'' 1 0 0)"
    by (simp add: entries_def)
  then have ok: "listMatchesIndex (Set (New 2 :: (string, int) Cache) ''a'' 1 0 0)"
    unfolding listMatchesIndex_def by (rule exI)
  have "recencyList overwritten [1, 0]" and "items overwritten = [(''a'', 1)]"
    by code_simp+
  then have a: "\<not> listMatchesIndex overwritten"
    by (intro no [of _ "[1, 0]"]) (simp_all add: entries_def)
  have "recencyList (snd failedGet) [0]" and "items (snd failedGet) = []"
    by code_simp+
  then have b: "\<not> listMatchesIndex (snd failedGet)"
    by (intro no [of _ "[0]"]) (simp_all add: entries_def)
  have "recencyList (snd expiredGet) [1, 0]" and "items (snd expiredGet) = [(''k'', 1)]"
    by code_simp+
  then have c: "\<not> listMatchesIndex (snd expiredGet)"
    by (intro no [of _ "[1, 0]"]) (simp_all add: entries_def)
  from ok a b c show ?thesis by blast
qed

text \<open>
  Claim C3 says that all callers that observe one computation in flight receive the same
  outcome. In the schedule \<open>twoGets\<close> the goroutine whose \<open>compute\<close> fails returns
  \<open>(0, boom)\<close>, and the goroutine that waited on its entry returns \<open>(0, nil)\<close>: the entry
  has no field for the error, and the waiter returns \<open>entry.value, nil\<close>.
\<close>

theorem waiter_misses_the_error:
  "outcomes twoGets = Some [Some (Returned 0 (Some ''boom'')), Some (Returned 0 None)]"
  by code_simp

text \<open>
  Claim C4, as stated, fails on \<open>failedGet\<close>: the call returns the value that \<open>compute\<close>
  returned with its error, \<open>(5, boom)\<close>, not the zero value; and the reserved entry
  (entry 0) is deleted from the index only: it is still the head and the tail of the
  recency list.
\<close>

theorem failed_Get_returns_value_and_keeps_entry_listed:
  "fst failedGet = Returned 5 (Some ''boom'') \<and>
   fst failedGet \<noteq> Returned 0 (Some ''boom'') \<and>
   map_of (items (snd failedGet)) ''k'' = None \<and>
   head (snd failedGet) = Some 0 \<and> tail (snd failedGet) = Some 0"
  by code_simp

text \<open>
  Claim C4, amended: when \<open>compute\<close> fails during a \<open>Get\<close> (the key was absent, or its entry
  had expired), the call returns the value and the error that \<open>compute\<close> returned, the key is
  absent afterwards, and a following \<open>Get\<close> with a \<open>compute\<close> that succeeds returns the value
  of that second \<open>compute\<close>, at any time. The key is deleted from the index in one critical
  section, which leaves the channel open, and the channel is closed in the next piece.
\<close>

theorem failed_Get_is_not_cached:
  fixes c :: "('k::default, 'v::default) Cache"
  assumes "map_of (items c) key = None \<or>
           (\<exists>e. map_of (items c) key = Some e \<and> ready (heap c e) \<and> expired (heap c e) now)"
  shows "fst (Get c key (Some (v, Some err)) now) = Returned v (Some err) \<and>
         map_of (items (snd (Get c key (Some (v, Some err)) now))) key = None \<and>
         (\<forall>v2 now2. fst (Get (snd (Get c key (Some (v, Some err)) now)) key (Some (v2, None)) now2)
                       = Returned v2 None) \<and>
         (\<forall>c1 e now1.
            Get_step c1 key (Some (v, Some err)) now1 (RemoveFailed e v err)
              = Some (deleteKey c1 key, CloseFailed e v err) \<and>
            map_of (items (deleteKey c1 key)) key = None \<and>
            ready (heap (deleteKey c1 key) e) = ready (heap c1 e) \<and>
            Get_step c1 key (Some (v, Some err)) now1 (CloseFailed e v err)
              = Some (closeReady c1 e, Done (Returned v (Some err))) \<and>
            ready (heap (closeReady c1 e) e))"
proof -
  have miss: "fst (Get c' key (Some (w, e)) t) = Returned w e \<and>
              (e \<noteq> None \<longrightarrow> map_of (items (snd (Get c' key (Some (w, e)) t))) key = None)"
    if "map_of (items c') key = None" for c' :: "('k, 'v) Cache" and w e t
    using that
    by (cases e)
       (auto simp: Get_miss computeAndPublish_def closeReady_def deleteKey_def
          AList.delete_conv' split: prod.splits)
  have steps: "map_of (items (deleteKey c1 key)) key = None"
    "ready (heap (deleteKey c1 key) e) = ready (heap c1 e)"
    "ready (heap (closeReady c1 e) e)" for c1 :: "('k, 'v) Cache" and e
    by (simp_all add: deleteKey_def closeReady_def AList.delete_conv')
  from assms have g: "Get c key (Some (v, Some err)) now
                        = Get (if map_of (items c) key = None then c else deleteKey c key)
                            key (Some (v, Some err)) now"
    by (auto simp: Get_expired)
  have absent: "map_of (items (if map_of (items c) key = None then c else deleteKey c key)) key = None"
    by simp
  from miss [OF absent, of v "Some err" now]
  have r: "fst (Get c key (Some (v, Some err)) now) = Returned v (Some err)"
    and a: "map_of (items (snd (Get c key (Some (v, Some err)) now))) key = None"
    unfolding g by simp_all
  from miss [OF a] have "fst (Get (snd (Get c key (Some (v, Some err)) now)) key (Some (v2, None)) now2)
                           = Returned v2 None" for v2 now2
    by simp
  with r a steps show ?thesis by simp
qed

theorem failed_Get_is_not_cached_witness:
  "map_of (items (New 2 :: (string, int) Cache)) ''k'' = None \<and>
   fst (Get (New 2 :: (string, int) Cache) ''k'' (Some (5, Some ''boom'')) 0)
     = Returned 5 (Some ''boom'') \<and>
   fst (Get (snd (Get (New 2 :: (string, int) Cache) ''k'' (Some (5, Some ''boom'')) 0))
          ''k'' (Some (6, None)) 1) = Returned 6 None"
proof -
  have h: "map_of (items (New 2 :: (string, int) Cache)) ''k'' = None"
    by (simp add: New_def)
  from failed_Get_is_not_cached [of "New 2 :: (string, int) Cache" "''k''" 0 5 "''boom''"] h
  show ?thesis by simp
qed

text \<open>
  Claim C5 says that \<open>Get\<close> with a nil \<open>compute\<close> on a missing or expired key returns a
  "not found" error. The code calls the nil function: on the empty cache, and on a key
  that expired at time 1 read at time 5, the call panics; the reserved entry stays in the
  index with its channel open, so a second \<open>Get\<close> on the key would block for ever.
\<close>

theorem Get_nil_compute_panics:
  "fst (Get (New 2 :: (string, int) Cache) ''one'' None 0) = Panicked \<and>
   fst (Get (Set (New 2 :: (string, int) Cache) ''expired'' 42 1 0) ''expired'' None 5) = Panicked \<and>
   fst (Get (snd (Get (New 2 :: (string, int) Cache) ''one'' None 0)) ''one'' None 0) = Blocked"
  by code_simp

text \<open>
  Claim C6 says that the delete of an expired entry is conditioned on the key still being
  mapped to that entry, so that an entry stored for the key in between is never deleted.
  Lines 105-107 delete the key with no condition. In the schedule \<open>setDuringEviction\<close>, when
  the \<open>Get\<close> comes to delete, the key is mapped to entry 1, which the \<open>Set\<close> has just made
  (value 2, no expiry, channel closed), and not to the stale entry 0 that the \<open>Get\<close> had
  found expired; after the delete the key is absent from the index.
\<close>

theorem eviction_deletes_the_fresh_entry:
  "indexAt setBeforeEviction ''k'' = Some (Some 1) \<and>
   map_option value_e (entryAt setBeforeEviction 1) = Some 2 \<and>
   map_option expiresAt (entryAt setBeforeEviction 1) = Some None \<and>
   map_option ready (entryAt setBeforeEviction 1) = Some True \<and>
   indexAt setDuringEviction ''k'' = Some None"
  by code_simp

text \<open>
  Claim C7 says that a \<open>Get\<close> whose second lookup, under the write lock, finds the key goes
  through the hit path: expiry test, promotion. In the schedule \<open>setBeforeAdmission\<close> the
  entry found by the second lookup (entry 0, value 7) expired at time 1; at time 5 the call
  returns \<open>(7, nil)\<close>, the key is still in the index and the head of the recency list is
  still entry 1: lines 124-128 only wait and return.
\<close>

theorem admitted_Get_skips_expiry_and_promotion:
  "outcomes setBeforeAdmission = Some [Some (Returned 7 None)] \<and>
   map_option expiresAt (entryAt setBeforeAdmission 0) = Some (Some 1) \<and>
   indexAt setBeforeAdmission ''k'' = Some (Some 0) \<and>
   headAt setBeforeAdmission = Some (Some 1)"
  by code_simp

text \<open>
  Claim C8 is the LRU scenario. In \<open>lruScenario\<close> the entry evicted by \<open>Set(D,4,0)\<close> is the
  one of \<open>B\<close>, and \<open>Get\<close> returns the values of \<open>A\<close>, \<open>C\<close> and \<open>D\<close>, as the claim says; but
  \<open>Get(B)\<close> with a nil \<open>compute\<close> does not fail with "not found": it panics.
\<close>

theorem lru_evicts_B_but_Get_B_panics:
  "map fst (items lruScenario) = [''A'', ''C'', ''D''] \<and>
   fst (Get lruScenario ''A'' None 0) = Returned 1 None \<and>
   fst (Get lruScenario ''C'' None 0) = Returned 3 None \<and>
   fst (Get lruScenario ''D'' None 0) = Returned 4 None \<and>
   fst (Get lruScenario ''B'' None 0) = Panicked"
  by code_simp

text \<open>
  Claim C9 says that \<open>Cleanup\<close> removes from the index and from the recency list every
  entry whose \<open>expiresAt\<close> is set and in the past. On \<open>staleExpired\<close> the index maps \<open>a\<close> to
  entry 1 and the recency list is entry 1 followed by entry 0, the entry that the second
  \<open>Set\<close> replaced in the map and left in the list; both expired at 1ns. \<open>Cleanup\<close> at 5ns
  scans the map, so it removes entry 1 from both, and entry 0, expired, stays in the
  recency list as its head and its tail.
\<close>

theorem Cleanup_leaves_stale_expired_entry:
  "items staleExpired = [(''a'', 1)] \<and>
   recencyList staleExpired [1, 0] \<and>
   expiresAt (heap staleExpired 0) = Some 1 \<and>
   expiresAt (heap staleExpired 1) = Some 1 \<and>
   items (Cleanup staleExpired 5) = [] \<and>
   expired (heap (Cleanup staleExpired 5) 0) 5 \<and>
   recencyList (Cleanup staleExpired 5) [0] \<and>
   head (Cleanup staleExpired 5) = Some 0 \<and>
   tail (Cleanup staleExpired 5) = Some 0"
  by code_simp

text \<open>
  Claim C10 says that an entry made by \<open>Set\<close> with a duration that is zero or negative is
  never removed by the expiry check of \<open>Get\<close>. In the schedule \<open>unexpiringDuringEviction\<close>
  the call \<open>Set(k,2,-3ns)\<close> makes entry 1 with \<open>expiresAt\<close> unset and maps \<open>k\<close> to it; the
  \<open>Get\<close> that had found the former entry of \<open>k\<close> expired then deletes the key (lines
  105-107), and the entry that never expires is gone from the index.
\<close>

theorem eviction_removes_entry_without_expiry:
  "indexAt unexpiringBeforeEviction ''k'' = Some (Some 1) \<and>
   map_option value_e (entryAt unexpiringBeforeEviction 1) = Some 2 \<and>
   map_option expiresAt (entryAt unexpiringBeforeEviction 1) = Some None \<and>
   map_option ready (entryAt unexpiringBeforeEviction 1) = Some True \<and>
   indexAt unexpiringDuringEviction ''k'' = Some None \<and>
   map_option expiresAt (entryAt unexpiringDuringEviction 1) = Some None"
  by code_simp

end
